theory Spec2Isabelle
  imports Main "HOL-Library.Word"
begin

section \<open>The scheduler's data (scheduler.c, lines 12-45)\<close>

text \<open>
  \<^verbatim>\<open>size_t\<close> is an unsigned 64-bit word: \<^verbatim>\<open>+\<close> wraps and \<^verbatim>\<open><=\<close> compares unsigned.
  Handles (\<^verbatim>\<open>task_t\<close> of scheduler.h) are \<^verbatim>\<open>int\<close>s, as the comment in \<^verbatim>\<open>task_create\<close> says.
  The C \<^verbatim>\<open>int\<close>s of the file (indices, counters, handles, the alive flag) are modelled as
  \<open>int\<close>: every table access below checks its index against the table, so no index comes
  near the limits of a machine \<^verbatim>\<open>int\<close>.
\<close>

type_synonym size_t = "64 word"

definition MAX_TASKS :: int where
  "MAX_TASKS = 128"

definition STACK_SIZE :: nat where
  "STACK_SIZE = 65536"

text \<open>
  The scheduling fields of \<^verbatim>\<open>task_info_t\<close>. The two \<^verbatim>\<open>ucontext_t\<close> fields belong to the
  external context primitive; what the scheduler does to them is recorded as events (below).
\<close>

record task_info_t =
  is_alive :: int
  wake_time :: size_t
  waiting_for :: int

text \<open>\<^verbatim>\<open>&tasks[i].context\<close> and \<^verbatim>\<open>&tasks[i].exit_context\<close>.\<close>

datatype ctx_ref = Context int | Exit_context int

text \<open>The function a context is made to run: a task function (named by a number) or \<^verbatim>\<open>task_exit\<close>.\<close>

datatype entry = Task_fn nat | Task_exit

text \<open>
  The calls the scheduler makes to the context primitive and to the allocator, in order.
  \<open>Malloc_stack\<close> is the allocation of a context's stack together with the assignment of
  its size, \<open>Free_stack\<close> the release of the stack together with the zeroing of its size.
\<close>

datatype event =
    Getcontext ctx_ref
  | Malloc_stack ctx_ref nat
  | Makecontext ctx_ref entry
  | Set_uc_link ctx_ref ctx_ref
  | Swapcontext ctx_ref ctx_ref
  | Free_stack ctx_ref

text \<open>
  The globals of scheduler.c (\<^verbatim>\<open>current_task\<close>, \<^verbatim>\<open>num_tasks\<close>, \<^verbatim>\<open>num_alive\<close>, \<^verbatim>\<open>tasks\<close>), and
  the program's interaction with its collaborators: how many times the clock and the input
  have been queried so far, and the events sent to the context primitive.
  \<open>tasks\<close> is the table \<^verbatim>\<open>tasks[MAX_TASKS]\<close>; only indices \<open>0 .. MAX_TASKS - 1\<close> are slots of
  it, and every access is guarded by \<open>in_table\<close>.
\<close>

record sched =
  current_task :: int
  num_tasks :: int
  num_alive :: int
  tasks :: "int \<Rightarrow> task_info_t"
  clock_reads :: nat
  polls :: nat
  trace :: "event list"

text \<open>
  Modelled from the spec: util.h and curses.h are not among the sources. The clock
  (\<^verbatim>\<open>time_ms\<close>, a millisecond count of type \<^verbatim>\<open>size_t\<close>) and the non-blocking input (\<^verbatim>\<open>getch\<close>)
  are parameters: \<open>time_src E k\<close> is what the \<open>k\<close>-th call of \<^verbatim>\<open>time_ms()\<close> returns,
  \<open>input_src E k\<close> what the \<open>k\<close>-th call of \<^verbatim>\<open>getch()\<close> returns.
\<close>

record env =
  time_src :: "nat \<Rightarrow> size_t"
  input_src :: "nat \<Rightarrow> int"

text \<open>
  An access \<^verbatim>\<open>tasks[i]\<close> with \<open>i\<close> outside the table is undefined behaviour in C. The
  model stops there: \<open>Undefined (Out_of_table i) s\<close> says that the program, in state \<open>s\<close>,
  accesses \<^verbatim>\<open>tasks[i]\<close> outside the table. It is not an error the program reports: no
  function of scheduler.c has an error path.
\<close>

datatype ub = Out_of_table int

datatype 'a outcome = Done 'a | Undefined ub sched

definition in_table :: "int \<Rightarrow> bool" where
  "in_table i = (0 \<le> i \<and> i < MAX_TASKS)"

text \<open>The statically initialised globals (lines 41-45): zeroes, but for \<^verbatim>\<open>num_tasks = 1\<close>.\<close>

definition zero_task :: task_info_t where
  "zero_task = \<lparr>is_alive = 0, wake_time = 0, waiting_for = 0\<rparr>"

definition static_init :: sched where
  "static_init = \<lparr>current_task = 0, num_tasks = 1, num_alive = 0, tasks = (\<lambda>_. zero_task),
     clock_reads = 0, polls = 0, trace = []\<rparr>"

section \<open>The collaborators' calls\<close>

definition time_ms :: "env \<Rightarrow> sched \<Rightarrow> size_t \<times> sched" where
  "time_ms E s = (time_src E (clock_reads s), s\<lparr>clock_reads := Suc (clock_reads s)\<rparr>)"

definition getch :: "env \<Rightarrow> sched \<Rightarrow> int \<times> sched" where
  "getch E s = (input_src E (polls s), s\<lparr>polls := Suc (polls s)\<rparr>)"

text \<open>
  Modelled from the spec: the input's "no data" sentinel, \<^verbatim>\<open>ERR\<close> of curses.h (\<open>- 1\<close> there).
\<close>

definition ERR :: int where
  "ERR = - 1"

definition emit :: "event list \<Rightarrow> sched \<Rightarrow> sched" where
  "emit es s = s\<lparr>trace := trace s @ es\<rparr>"

section \<open>is_ready (lines 47-52)\<close>

text \<open>
  \<^verbatim>\<open>&&\<close> and \<^verbatim>\<open>||\<close> evaluate left to right and stop early: the table is read only for a
  live task that waits for some handle, the clock only when the first two conjuncts hold.
\<close>

definition is_ready :: "env \<Rightarrow> sched \<Rightarrow> task_info_t \<Rightarrow> (bool \<times> sched) outcome" where
  "is_ready E s task =
     (if is_alive task = 0 then Done (False, s)
      else if waiting_for task \<noteq> - 1 \<and> \<not> in_table (waiting_for task)
        then Undefined (Out_of_table (waiting_for task)) s
      else if waiting_for task \<noteq> - 1 \<and> is_alive (tasks s (waiting_for task)) \<noteq> 0
        then Done (False, s)
      else (let (now, s') = time_ms E s in Done (wake_time task \<le> now, s')))"

section \<open>schedule_next (lines 55-71)\<close>

text \<open>
  Lines 59-63: slot \<open>i\<close> has been found ready. \<^verbatim>\<open>swapcontext\<close> saves the running context
  in the old task's slot and resumes slot \<open>i\<close>'s context.
\<close>

definition switch_to :: "int \<Rightarrow> sched \<Rightarrow> sched outcome" where
  "switch_to i s =
     (let old_task = current_task s;
          s1 = s\<lparr>current_task := i\<rparr>;
          s2 = s1\<lparr>tasks := (tasks s1)(i := (tasks s1 i)\<lparr>waiting_for := - 1\<rparr>)\<rparr>
      in if in_table old_task
         then Done (emit [Swapcontext (Context old_task) (Context i)] s2)
         else Undefined (Out_of_table old_task) s2)"

text \<open>
  The \<^verbatim>\<open>while (true)\<close> loop with its variable \<open>i\<close>. It need not end: \<open>None\<close> is the loop
  that runs forever.
\<close>

partial_function (option) scan :: "env \<Rightarrow> int \<Rightarrow> sched \<Rightarrow> sched outcome option" where
  "scan E i s =
     (if \<not> in_table i then Some (Undefined (Out_of_table i) s)
      else (case is_ready E s (tasks s i) of
              Undefined u x \<Rightarrow> Some (Undefined u x)
            | Done (ready, s1) \<Rightarrow>
                if ready then Some (switch_to i s1)
                else scan E (if i + 1 \<ge> num_tasks s1 then 0 else i + 1) s1))"

declare scan.simps [code]

definition schedule_next :: "env \<Rightarrow> sched \<Rightarrow> sched outcome option" where
  "schedule_next E s = scan E (current_task s + 1) s"

section \<open>The lifecycle operations\<close>

text \<open>scheduler_init (lines 77-88).\<close>

definition scheduler_init :: "sched \<Rightarrow> sched" where
  "scheduler_init s =
     (let s1 = s\<lparr>current_task := 0, num_tasks := 1, num_alive := 1\<rparr>;
          s2 = s1\<lparr>tasks := (tasks s1)(0 := (tasks s1 0)\<lparr>is_alive := 1\<rparr>)\<rparr>;
          s3 = s2\<lparr>tasks := (tasks s2)(0 := (tasks s2 0)\<lparr>waiting_for := - 1\<rparr>)\<rparr>
      in emit [Getcontext (Context 0)] s3)"

text \<open>
  task_exit (lines 96-107). Like every operation that ends in \<^verbatim>\<open>schedule_next()\<close>, its
  result is the state in which \<^verbatim>\<open>swapcontext\<close> has handed the processor to the selected
  task: the next operation is that task's.
\<close>

definition task_exit :: "env \<Rightarrow> sched \<Rightarrow> sched outcome option" where
  "task_exit E s =
     (let s1 = s\<lparr>num_alive := num_alive s - 1\<rparr>; c = current_task s1
      in if \<not> in_table c then Some (Undefined (Out_of_table c) s1)
         else (let s2 = s1\<lparr>tasks := (tasks s1)(c := (tasks s1 c)\<lparr>is_alive := 0\<rparr>)\<rparr>;
                   s3 = emit [Free_stack (Context c), Free_stack (Exit_context c)] s2
               in schedule_next E s3))"

text \<open>
  task_create (lines 115-154). The result carries the handle written to \<^verbatim>\<open>*handle\<close>.
  The counters are incremented before the table is written.
\<close>

definition task_create :: "nat \<Rightarrow> sched \<Rightarrow> (int \<times> sched) outcome" where
  "task_create fn s =
     (let index = num_tasks s;
          s1 = s\<lparr>num_tasks := num_tasks s + 1\<rparr>;
          s2 = s1\<lparr>num_alive := num_alive s1 + 1\<rparr>
      in if \<not> in_table index then Undefined (Out_of_table index) s2
         else (let s3 = s2\<lparr>tasks := (tasks s2)(index := (tasks s2 index)\<lparr>is_alive := 1\<rparr>)\<rparr>;
                   s4 = s3\<lparr>tasks := (tasks s3)(index := (tasks s3 index)\<lparr>waiting_for := - 1\<rparr>)\<rparr>
               in Done (index,
                    emit [Getcontext (Exit_context index),
                          Malloc_stack (Exit_context index) STACK_SIZE,
                          Makecontext (Exit_context index) Task_exit,
                          Getcontext (Context index),
                          Malloc_stack (Context index) STACK_SIZE,
                          Set_uc_link (Context index) (Exit_context index),
                          Makecontext (Context index) (Task_fn fn)] s4)))"

text \<open>task_wait (lines 162-165).\<close>

definition task_wait :: "env \<Rightarrow> int \<Rightarrow> sched \<Rightarrow> sched outcome option" where
  "task_wait E handle s =
     (let c = current_task s
      in if \<not> in_table c then Some (Undefined (Out_of_table c) s)
         else schedule_next E
                (s\<lparr>tasks := (tasks s)(c := (tasks s c)\<lparr>waiting_for := handle\<rparr>)\<rparr>))"

text \<open>task_sleep (lines 174-177).\<close>

definition task_sleep :: "env \<Rightarrow> size_t \<Rightarrow> sched \<Rightarrow> sched outcome option" where
  "task_sleep E ms s =
     (let (now, s1) = time_ms E s; c = current_task s1
      in if \<not> in_table c then Some (Undefined (Out_of_table c) s1)
         else schedule_next E
                (s1\<lparr>tasks := (tasks s1)(c := (tasks s1 c)\<lparr>wake_time := now + ms\<rparr>)\<rparr>))"



section \<open>Runs of the scheduler\<close>

text \<open>
  Between two context switches exactly one task runs, and what it does to the scheduler
  is one of the operations above. \<open>Readchar\<close> is one pass of \<^verbatim>\<open>task_readchar\<close>'s loop: a
  poll, followed by the yield if the poll gave \<^verbatim>\<open>ERR\<close>. \<open>Exit\<close> is the return of the
  running task's function, which enters \<^verbatim>\<open>task_exit\<close> through the exit context.
\<close>

datatype action = Create nat | Wait int | Sleep size_t | Readchar | Exit

fun step :: "env \<Rightarrow> action \<Rightarrow> sched \<Rightarrow> sched outcome option" where
  "step E (Create fn) s =
     (case task_create fn s of
        Done (h, s') \<Rightarrow> Some (Done s')
      | Undefined u x \<Rightarrow> Some (Undefined u x))"
| "step E (Wait h) s = task_wait E h s"
| "step E (Sleep ms) s = task_sleep E ms s"
| "step E Readchar s =
     (let (input, s1) = getch E s
      in if input = ERR then schedule_next E s1 else Some (Done s1))"
| "step E Exit s = task_exit E s"

fun run :: "env \<Rightarrow> action list \<Rightarrow> sched \<Rightarrow> sched outcome option" where
  "run E [] s = Some (Done s)"
| "run E (a # as) s =
     (case step E a s of
        Some (Done s') \<Rightarrow> run E as s'
      | r \<Rightarrow> r)"

text \<open>The state in which a run stands, or stops at an access outside the table.\<close>

fun state_of :: "sched outcome \<Rightarrow> sched" where
  "state_of (Done s) = s"
| "state_of (Undefined u s) = s"

fun ub_of :: "'a outcome \<Rightarrow> ub option" where
  "ub_of (Done x) = None"
| "ub_of (Undefined u s) = Some u"

text \<open>A clock that always reads \<open>t\<close>, and an input that never has data.\<close>

definition const_env :: "size_t \<Rightarrow> env" where
  "const_env t = \<lparr>time_src = (\<lambda>_. t), input_src = (\<lambda>_. ERR)\<rparr>"

section \<open>The spec's descriptions, and the invariants of the table\<close>

text \<open>
  The spec's scan: as the code's, but started at \<open>(current_task + 1) mod num_tasks\<close>.
\<close>

definition schedule_next_spec :: "env \<Rightarrow> sched \<Rightarrow> sched outcome option" where
  "schedule_next_spec E s = scan E ((current_task s + 1) mod num_tasks s) s"

text \<open>
  The table's bounds: the two indices inside the table, and the unclaimed slots still as
  statically initialised.
\<close>

definition table_ok :: "sched \<Rightarrow> bool" where
  "table_ok s =
     (0 \<le> current_task s \<and> current_task s < num_tasks s \<and> num_tasks s \<le> MAX_TASKS \<and>
      (\<forall>i \<in> {num_tasks s ..< MAX_TASKS}. tasks s i = zero_task))"

text \<open>Between two operations, moreover, the running task is alive and waits for no one.\<close>

definition sched_inv :: "sched \<Rightarrow> bool" where
  "sched_inv s =
     (table_ok s \<and>
      is_alive (tasks s (current_task s)) \<noteq> 0 \<and>
      waiting_for (tasks s (current_task s)) = - 1)"

text \<open>
  \<open>selects E s j k s'\<close>: from state \<open>s\<close> the scan has found slot \<open>j\<close> ready at the clock
  reading number \<open>k - 1\<close>, and \<open>s'\<close> is the state after the switch to it.
\<close>

definition selects :: "env \<Rightarrow> sched \<Rightarrow> int \<Rightarrow> nat \<Rightarrow> sched \<Rightarrow> bool" where
  "selects E s j k s' =
     (in_table j \<and> in_table (current_task s) \<and> clock_reads s < k \<and>
      is_alive (tasks s j) \<noteq> 0 \<and>
      (waiting_for (tasks s j) = - 1 \<or>
         in_table (waiting_for (tasks s j)) \<and> is_alive (tasks s (waiting_for (tasks s j))) = 0) \<and>
      wake_time (tasks s j) \<le> time_src E (k - 1) \<and>
      s' = s\<lparr>current_task := j, tasks := (tasks s)(j := (tasks s j)\<lparr>waiting_for := - 1\<rparr>),
             clock_reads := k,
             trace := trace s @ [Swapcontext (Context (current_task s)) (Context j)]\<rparr>)"

definition scan_post :: "env \<Rightarrow> int \<Rightarrow> sched \<Rightarrow> sched outcome \<Rightarrow> bool" where
  "scan_post E i s y =
     (\<forall>s'. y = Done s' \<longrightarrow>
       (\<exists>j k. selects E s j k s' \<and> (j = i \<or> j = 0 \<or> (0 < j \<and> j < num_tasks s))))"

text \<open>The clock value read last (0 before the first reading).\<close>

definition last_reading :: "env \<Rightarrow> sched \<Rightarrow> size_t" where
  "last_reading E s = (if clock_reads s = 0 then 0 else time_src E (clock_reads s - 1))"

text \<open>The running task's wake-up time has passed.\<close>

definition awake :: "env \<Rightarrow> sched \<Rightarrow> bool" where
  "awake E s = (wake_time (tasks s (current_task s)) \<le> last_reading E s)"

text \<open>Task \<open>c\<close> is not the running task at any point of the run of \<open>as\<close> from \<open>s\<close>.\<close>

fun suspended :: "env \<Rightarrow> int \<Rightarrow> action list \<Rightarrow> sched \<Rightarrow> bool" where
  "suspended E c [] s = (current_task s \<noteq> c)"
| "suspended E c (a # as) s =
     (current_task s \<noteq> c \<and>
      (case step E a s of
         Some (Done s') \<Rightarrow> suspended E c as s'
       | _ \<Rightarrow> False))"

text \<open>The state a run has reached (also when it stopped at an access outside the table).\<close>

definition reached :: "env \<Rightarrow> action list \<Rightarrow> sched" where
  "reached E as = (case run E as (scheduler_init static_init) of
                     Some r \<Rightarrow> state_of r
                   | None \<Rightarrow> scheduler_init static_init)"


text \<open>The record of a task just created, in a slot that was still zero.\<close>

definition fresh_task :: task_info_t where
  "fresh_task = \<lparr>is_alive = 1, wake_time = 0, waiting_for = - 1\<rparr>"

text \<open>
  A program that fills the table and hands the processor round to the task in the last
  slot: task 0 creates 127 tasks, then each task in turn calls \<^verbatim>\<open>task_sleep(0)\<close>.
\<close>

definition fill_and_rotate :: "action list" where
  "fill_and_rotate = replicate 127 (Create 0) @ replicate 127 (Sleep 0)"


text \<open>
  \<open>skip E n i s\<close>: the scan started at slot \<open>i\<close> in state \<open>s\<close> finds its first \<open>n\<close> probes
  not ready; the result is the slot it probes next and the state it is in then.
\<close>

fun skip :: "env \<Rightarrow> nat \<Rightarrow> int \<Rightarrow> sched \<Rightarrow> (int \<times> sched) option" where
  "skip E 0 i s = Some (i, s)"
| "skip E (Suc n) i s =
     (if in_table i
      then (case is_ready E s (tasks s i) of
              Done (ready, s1) \<Rightarrow>
                if ready then None
                else skip E n (if i + 1 \<ge> num_tasks s1 then 0 else i + 1) s1
            | Undefined u x \<Rightarrow> None)
      else None)"



section \<open>What a completed scan has done\<close>

lemma is_ready_Done:
  assumes "is_ready E s t = Done (b, s')"
  shows "(\<not> b \<and> s' = s) \<or>
         (s' = s\<lparr>clock_reads := Suc (clock_reads s)\<rparr> \<and>
          b = (wake_time t \<le> time_src E (clock_reads s)) \<and>
          is_alive t \<noteq> 0 \<and>
          (waiting_for t = - 1 \<or> in_table (waiting_for t) \<and> is_alive (tasks s (waiting_for t)) = 0))"
  using assms
  by (auto simp: is_ready_def time_ms_def split: if_splits)

lemma scan_Done_aux:
  assumes "scan E i s = Some y"
  shows "scan_post E i s y"
proof (rule scan.raw_induct[where P = scan_post, OF _ assms], goal_cases)
  case (1 scan' E i s y)
  show ?case unfolding scan_post_def
  proof (intro allI impI)
    fix s' assume y: "y = Done s'"
    from 1(2) y have it: "in_table i" by (auto split: if_splits)
    with 1(2) y obtain b s1 where r: "is_ready E s (tasks s i) = Done (b, s1)"
      by (auto split: if_splits outcome.splits)
    show "\<exists>j k. selects E s j k s' \<and> (j = i \<or> j = 0 \<or> (0 < j \<and> j < num_tasks s))"
    proof (cases b)
      case True
      with 1(2) y it r have sw: "switch_to i s1 = Done s'" by simp
      from is_ready_Done[OF r] True
      have s1: "s1 = s\<lparr>clock_reads := Suc (clock_reads s)\<rparr>"
        and rd: "wake_time (tasks s i) \<le> time_src E (clock_reads s)" "is_alive (tasks s i) \<noteq> 0"
           "waiting_for (tasks s i) = - 1 \<or> in_table (waiting_for (tasks s i)) \<and> is_alive (tasks s (waiting_for (tasks s i))) = 0"
        by auto
      from sw s1 have "selects E s i (Suc (clock_reads s)) s'"
        using it rd by (auto simp: switch_to_def selects_def emit_def Let_def split: if_splits)
      then show ?thesis by blast
    next
      case False
      define i' where "i' = (if i + 1 \<ge> num_tasks s1 then 0 else i + 1)"
      from 1(2) y it r False have rec: "scan' E i' s1 = Some y" by (simp add: i'_def)
      from 1(1)[OF rec] y obtain j k where
        sel: "selects E s1 j k s'" and j: "j = i' \<or> j = 0 \<or> (0 < j \<and> j < num_tasks s1)"
        unfolding scan_post_def by blast
      from is_ready_Done[OF r] False
      have s1: "s1 = s \<or> s1 = s\<lparr>clock_reads := Suc (clock_reads s)\<rparr>" by auto
      then have "selects E s j k s'" using sel
        by (auto simp: selects_def)
      moreover have "j = i \<or> j = 0 \<or> (0 < j \<and> j < num_tasks s)"
        using j s1 it by (auto simp: in_table_def i'_def split: if_splits)
      ultimately show ?thesis by blast
    qed
  qed
qed

lemma schedule_next_Done:
  assumes "schedule_next E s = Some (Done s')" and "table_ok s"
  shows "\<exists>j k. selects E s j k s' \<and> 0 \<le> j \<and> j < num_tasks s"
proof -
  from scan_Done_aux[OF assms(1)[unfolded schedule_next_def]]
  obtain j k where sel: "selects E s j k s'"
    and j: "j = current_task s + 1 \<or> j = 0 \<or> (0 < j \<and> j < num_tasks s)"
    unfolding scan_post_def by blast
  from sel have al: "in_table j" "is_alive (tasks s j) \<noteq> 0" by (auto simp: selects_def)
  have "j < num_tasks s"
  proof (rule ccontr)
    assume "\<not> j < num_tasks s"
    with al(1) have "j \<in> {num_tasks s ..< MAX_TASKS}" by (simp add: in_table_def)
    with assms(2) have "tasks s j = zero_task" by (simp add: table_ok_def)
    with al(2) show False by (simp add: zero_task_def)
  qed
  moreover from al(1) have "0 \<le> j" by (simp add: in_table_def)
  ultimately show ?thesis using sel by blast
qed

lemma selects_inv:
  assumes "selects E s j k s'" and "table_ok s" and "j < num_tasks s"
  shows "sched_inv s'" and "awake E s'"
  using assms
  by (auto simp: selects_def sched_inv_def table_ok_def awake_def last_reading_def in_table_def)




section \<open>Every operation preserves the invariants\<close>

lemma task_create_Done:
  assumes "table_ok s"
  shows "num_tasks s < MAX_TASKS \<Longrightarrow>
     task_create fn s = Done (num_tasks s,
       s\<lparr>num_tasks := num_tasks s + 1, num_alive := num_alive s + 1,
         tasks := (tasks s)(num_tasks s := \<lparr>is_alive = 1, wake_time = 0, waiting_for = - 1\<rparr>),
         trace := trace s @
           [Getcontext (Exit_context (num_tasks s)),
            Malloc_stack (Exit_context (num_tasks s)) STACK_SIZE,
            Makecontext (Exit_context (num_tasks s)) Task_exit,
            Getcontext (Context (num_tasks s)),
            Malloc_stack (Context (num_tasks s)) STACK_SIZE,
            Set_uc_link (Context (num_tasks s)) (Exit_context (num_tasks s)),
            Makecontext (Context (num_tasks s)) (Task_fn fn)]\<rparr>)"
proof -
  assume lt: "num_tasks s < MAX_TASKS"
  with assms have it: "in_table (num_tasks s)" and z: "tasks s (num_tasks s) = zero_task"
    by (auto simp: table_ok_def in_table_def)
  show ?thesis
    using it z by (simp add: task_create_def Let_def emit_def zero_task_def)
qed

lemma task_create_Undefined:
  "\<not> in_table (num_tasks s) \<Longrightarrow>
     task_create fn s = Undefined (Out_of_table (num_tasks s))
       (s\<lparr>num_tasks := num_tasks s + 1, num_alive := num_alive s + 1\<rparr>)"
  by (simp add: task_create_def Let_def)

lemma step_cases [consumes 2, case_names created polled switched]:
  assumes inv: "sched_inv s" and st: "step E a s = Some (Done s')"
  obtains
    (created) fn where "a = Create fn" "num_tasks s < MAX_TASKS"
      "task_create fn s = Done (num_tasks s, s')"
      "current_task s' = current_task s" "num_tasks s' = num_tasks s + 1"
      "clock_reads s' = clock_reads s"
      "tasks s' = (tasks s)(num_tasks s := \<lparr>is_alive = 1, wake_time = 0, waiting_for = - 1\<rparr>)"
  | (polled) "a = Readchar" "s' = s\<lparr>polls := Suc (polls s)\<rparr>"
  | (switched) p j k where "table_ok p" "num_tasks p = num_tasks s"
      "current_task p = current_task s" "clock_reads s \<le> clock_reads p"
      "\<forall>i. i \<noteq> current_task s \<longrightarrow> tasks p i = tasks s i"
      "selects E p j k s'" "0 \<le> j" "j < num_tasks s"
proof (cases a)
  case (Create fn)
  from inv have tok: "table_ok s" by (simp add: sched_inv_def)
  have lt: "num_tasks s < MAX_TASKS"
  proof (rule ccontr)
    assume "\<not> num_tasks s < MAX_TASKS"
    then have "\<not> in_table (num_tasks s)" by (simp add: in_table_def)
    from task_create_Undefined[OF this] st Create show False by simp
  qed
  from task_create_Done[OF tok lt, of fn] st Create
  have d: "task_create fn s = Done (num_tasks s, s')" by auto
  with task_create_Done[OF tok lt, of fn]
  have "current_task s' = current_task s" "num_tasks s' = num_tasks s + 1"
      "clock_reads s' = clock_reads s"
      "tasks s' = (tasks s)(num_tasks s := \<lparr>is_alive = 1, wake_time = 0, waiting_for = - 1\<rparr>)"
    by auto
  with Create lt d show ?thesis by (rule created)
next
  case (Wait h)
  from inv have tok: "table_ok s" by (simp add: sched_inv_def)
  then have it: "in_table (current_task s)" by (simp add: table_ok_def in_table_def)
  define p where "p = s\<lparr>tasks := (tasks s)(current_task s := (tasks s (current_task s))\<lparr>waiting_for := h\<rparr>)\<rparr>"
  from st Wait it have sn: "schedule_next E p = Some (Done s')"
    by (simp add: task_wait_def Let_def p_def)
  from tok have tp: "table_ok p" by (auto simp: table_ok_def p_def)
  from schedule_next_Done[OF sn tp] obtain j k where
    "selects E p j k s'" "0 \<le> j" "j < num_tasks p" by blast
  then show ?thesis using tp by (intro switched[of p j k]) (auto simp: p_def)
next
  case (Sleep ms)
  from inv have tok: "table_ok s" by (simp add: sched_inv_def)
  then have it: "in_table (current_task s)" by (simp add: table_ok_def in_table_def)
  define p where "p = s\<lparr>clock_reads := Suc (clock_reads s),
     tasks := (tasks s)(current_task s := (tasks s (current_task s))\<lparr>wake_time := time_src E (clock_reads s) + ms\<rparr>)\<rparr>"
  from st Sleep it have sn: "schedule_next E p = Some (Done s')"
    by (simp add: task_sleep_def Let_def p_def time_ms_def)
  from tok have tp: "table_ok p" by (auto simp: table_ok_def p_def)
  from schedule_next_Done[OF sn tp] obtain j k where
    "selects E p j k s'" "0 \<le> j" "j < num_tasks p" by blast
  then show ?thesis using tp by (intro switched[of p j k]) (auto simp: p_def)
next
  case Readchar
  from inv have tok: "table_ok s" by (simp add: sched_inv_def)
  show ?thesis
  proof (cases "input_src E (polls s) = ERR")
    case True
    define p where "p = s\<lparr>polls := Suc (polls s)\<rparr>"
    from st Readchar True have sn: "schedule_next E p = Some (Done s')"
      by (simp add: getch_def p_def)
    from tok have tp: "table_ok p" by (auto simp: table_ok_def p_def)
    from schedule_next_Done[OF sn tp] obtain j k where
      "selects E p j k s'" "0 \<le> j" "j < num_tasks p" by blast
    then show ?thesis using tp by (intro switched[of p j k]) (auto simp: p_def)
  next
    case False
    with st Readchar have "s' = s\<lparr>polls := Suc (polls s)\<rparr>" by (simp add: getch_def)
    with Readchar show ?thesis by (rule polled)
  qed
next
  case Exit
  from inv have tok: "table_ok s" by (simp add: sched_inv_def)
  then have it: "in_table (current_task s)" by (simp add: table_ok_def in_table_def)
  define p where "p = s\<lparr>num_alive := num_alive s - 1,
     tasks := (tasks s)(current_task s := (tasks s (current_task s))\<lparr>is_alive := 0\<rparr>),
     trace := trace s @ [Free_stack (Context (current_task s)), Free_stack (Exit_context (current_task s))]\<rparr>"
  from st Exit it have sn: "schedule_next E p = Some (Done s')"
    by (simp add: task_exit_def Let_def p_def emit_def)
  from tok have tp: "table_ok p" by (auto simp: table_ok_def p_def)
  from schedule_next_Done[OF sn tp] obtain j k where
    "selects E p j k s'" "0 \<le> j" "j < num_tasks p" by blast
  then show ?thesis using tp by (intro switched[of p j k]) (auto simp: p_def)
qed

lemma step_inv:
  assumes "sched_inv s" and "step E a s = Some (Done s')"
  shows "sched_inv s'"
  using assms
proof (cases rule: step_cases)
  case (created fn)
  then show ?thesis using assms(1)
    by (auto simp: sched_inv_def table_ok_def)
next
  case polled
  then show ?thesis using assms(1) by (simp add: sched_inv_def table_ok_def)
next
  case (switched p j k)
  then show ?thesis using selects_inv(1)[of E p j k s'] by simp
qed



lemma step_counters:
  assumes "sched_inv s" and "step E a s = Some (Done s')"
  shows "clock_reads s \<le> clock_reads s'" and "num_tasks s \<le> num_tasks s'"
  using assms
  by (cases rule: step_cases; auto simp: selects_def)+

lemma step_frame:
  assumes "sched_inv s" and "step E a s = Some (Done s')"
    and "0 \<le> j" and "j < num_tasks s" and "j \<noteq> current_task s" and "j \<noteq> current_task s'"
  shows "tasks s' j = tasks s j"
  using assms(1,2)
proof (cases rule: step_cases)
  case (created fn)
  then show ?thesis using assms(4) by simp
next
  case polled
  then show ?thesis by simp
next
  case (switched p i k)
  then show ?thesis using assms(5,6) by (auto simp: selects_def)
qed


lemma step_selected:
  assumes "sched_inv s" and "step E a s = Some (Done s')"
    and "current_task s' \<noteq> current_task s"
  shows "wake_time (tasks s (current_task s')) \<le> time_src E (clock_reads s' - 1)"
    and "clock_reads s < clock_reads s'"
    and "0 \<le> current_task s'" and "current_task s' < num_tasks s"
  using assms
  by (cases rule: step_cases; auto simp: selects_def)+

lemma run_append:
  "run E (as @ bs) s =
     (case run E as s of Some (Done s') \<Rightarrow> run E bs s' | r \<Rightarrow> r)"
  by (induction as arbitrary: s) (auto split: option.splits outcome.splits)

lemma run_inv:
  assumes "run E as s = Some (Done s')" and "sched_inv s"
  shows "sched_inv s'"
  using assms
proof (induction as arbitrary: s)
  case Nil
  then show ?case by simp
next
  case (Cons a as)
  from Cons.prems(1) obtain s1 where s1: "step E a s = Some (Done s1)" and r: "run E as s1 = Some (Done s')"
    by (auto split: option.splits outcome.splits)
  from step_inv[OF Cons.prems(2) s1] Cons.IH[OF r] show ?case by simp
qed

lemma init_inv: "sched_inv (scheduler_init static_init)"
  by (simp add: sched_inv_def table_ok_def scheduler_init_def static_init_def emit_def zero_task_def
      MAX_TASKS_def)



section \<open>Filling the table\<close>

lemma scan_ready:
  "in_table i \<Longrightarrow> is_ready E s (tasks s i) = Done (True, s1) \<Longrightarrow>
     scan E i s = Some (switch_to i s1)"
  by (subst scan.simps) simp

lemma scan_not_ready:
  "in_table i \<Longrightarrow> is_ready E s (tasks s i) = Done (False, s1) \<Longrightarrow>
     scan E i s = scan E (if i + 1 \<ge> num_tasks s1 then 0 else i + 1) s1"
  by (subst scan.simps) simp

lemma scan_outside:
  "\<not> in_table i \<Longrightarrow> scan E i s = Some (Undefined (Out_of_table i) s)"
  by (subst scan.simps) simp

text \<open>
  The scan ends with the first ready slot in its order: when \<open>n\<close> probes have failed and
  the next slot is ready, \<^verbatim>\<open>schedule_next\<close> switches to that slot.
\<close>

lemma scan_first_ready:
  "skip E n i s = Some (j, s') \<Longrightarrow> in_table j \<Longrightarrow>
   is_ready E s' (tasks s' j) = Done (True, s'') \<Longrightarrow>
     scan E i s = Some (switch_to j s'')"
proof (induction n arbitrary: i s)
  case 0
  then show ?case by (simp add: scan_ready)
next
  case (Suc n)
  from Suc.prems(1) have it: "in_table i" by (auto split: if_splits)
  with Suc.prems(1) obtain s1 where
    r: "is_ready E s (tasks s i) = Done (False, s1)"
    and sk: "skip E n (if i + 1 \<ge> num_tasks s1 then 0 else i + 1) s1 = Some (j, s')"
    by (auto split: outcome.splits if_splits)
  from scan_not_ready[OF it r] Suc.IH[OF sk Suc.prems(2,3)] show ?case by simp
qed



lemma creates_reach:
  "n \<le> 127 \<Longrightarrow>
     \<exists>s. run E (replicate n (Create fn)) (scheduler_init static_init) = Some (Done s) \<and>
         sched_inv s \<and> num_tasks s = 1 + int n \<and> current_task s = 0 \<and>
         (\<forall>i. 0 \<le> i \<and> i \<le> int n \<longrightarrow> tasks s i = fresh_task)"
proof (induction n)
  case 0
  show ?case using init_inv
    by (simp add: scheduler_init_def static_init_def emit_def zero_task_def fresh_task_def)
next
  case (Suc n)
  then obtain s where r: "run E (replicate n (Create fn)) (scheduler_init static_init) = Some (Done s)"
    and inv: "sched_inv s" and nt: "num_tasks s = 1 + int n" and ct: "current_task s = 0"
    and al: "\<forall>i. 0 \<le> i \<and> i \<le> int n \<longrightarrow> tasks s i = fresh_task"
    by auto
  from inv have tok: "table_ok s" by (simp add: sched_inv_def)
  from Suc.prems nt have lt: "num_tasks s < MAX_TASKS" by (simp add: MAX_TASKS_def)
  from task_create_Done[OF tok lt, of fn] obtain s' where
    c: "task_create fn s = Done (num_tasks s, s')"
    and f: "current_task s' = current_task s" "num_tasks s' = num_tasks s + 1"
      "tasks s' = (tasks s)(num_tasks s := fresh_task)"
    by (auto simp: fresh_task_def)
  from c have st: "step E (Create fn) s = Some (Done s')" by simp
  have "replicate (Suc n) (Create fn) = replicate n (Create fn) @ [Create fn]"
    by (simp add: replicate_append_same)
  then have "run E (replicate (Suc n) (Create fn)) (scheduler_init static_init) = Some (Done s')"
    using r st by (simp add: run_append)
  moreover from step_inv[OF inv st] have "sched_inv s'" .
  moreover from f nt ct al have "num_tasks s' = 1 + int (Suc n)" "current_task s' = 0"
    "\<forall>i. 0 \<le> i \<and> i \<le> int (Suc n) \<longrightarrow> tasks s' i = fresh_task"
    by auto
  ultimately show ?case by blast
qed

lemma sleeps_reach:
  "k \<le> 127 \<Longrightarrow>
     \<exists>s. run (const_env 0) (replicate 127 (Create fn) @ replicate k (Sleep 0))
            (scheduler_init static_init) = Some (Done s) \<and>
         sched_inv s \<and> num_tasks s = 128 \<and> current_task s = int k \<and>
         (\<forall>i. 0 \<le> i \<and> i \<le> 127 \<longrightarrow> tasks s i = fresh_task)"
proof (induction k)
  case 0
  from creates_reach[of 127 "const_env 0" fn] show ?case by auto
next
  case (Suc k)
  let ?E = "const_env 0"
  from Suc obtain s where
    r: "run ?E (replicate 127 (Create fn) @ replicate k (Sleep 0)) (scheduler_init static_init) = Some (Done s)"
    and inv: "sched_inv s" and nt: "num_tasks s = 128" and ct: "current_task s = int k"
    and al: "\<forall>i. 0 \<le> i \<and> i \<le> 127 \<longrightarrow> tasks s i = fresh_task"
    by auto
  define p where "p = s\<lparr>clock_reads := Suc (clock_reads s),
     tasks := (tasks s)(current_task s := (tasks s (current_task s))\<lparr>wake_time := 0\<rparr>)\<rparr>"
  from Suc.prems ct have it: "in_table (current_task s)" "in_table (current_task s + 1)"
    by (auto simp: in_table_def MAX_TASKS_def)
  have sl: "task_sleep ?E 0 s = schedule_next ?E p"
    using it by (simp add: task_sleep_def time_ms_def p_def const_env_def Let_def)
  have tp: "tasks p (current_task s + 1) = fresh_task"
    using al ct Suc.prems by (simp add: p_def)
  have rd: "is_ready ?E p (tasks p (current_task p + 1)) = Done (True, p\<lparr>clock_reads := Suc (clock_reads p)\<rparr>)"
    using tp by (simp add: is_ready_def fresh_task_def time_ms_def const_env_def p_def)
  define s' where "s' = p\<lparr>current_task := current_task s + 1,
      tasks := (tasks p)(current_task s + 1 := fresh_task),
      clock_reads := Suc (clock_reads p),
      trace := trace p @ [Swapcontext (Context (current_task s)) (Context (current_task s + 1))]\<rparr>"
  have sw: "switch_to (current_task p + 1) (p\<lparr>clock_reads := Suc (clock_reads p)\<rparr>) = Done s'"
    using it tp by (simp add: switch_to_def emit_def s'_def p_def fresh_task_def Let_def)
  have "schedule_next ?E p = Some (Done s')"
    unfolding schedule_next_def using scan_ready[OF _ rd] it sw by (simp add: p_def)
  with sl have st: "step ?E (Sleep 0) s = Some (Done s')" by simp
  have "replicate 127 (Create fn) @ replicate (Suc k) (Sleep 0) =
        (replicate 127 (Create fn) @ replicate k (Sleep 0)) @ [Sleep 0]"
    by (simp add: replicate_append_same)
  then have "run ?E (replicate 127 (Create fn) @ replicate (Suc k) (Sleep 0)) (scheduler_init static_init)
      = Some (Done s')"
    using r st by (simp only: run_append) simp
  moreover from step_inv[OF inv st] have "sched_inv s'" .
  moreover have "num_tasks s' = 128" "current_task s' = int (Suc k)"
    using nt ct by (auto simp: s'_def p_def)
  moreover have "\<forall>i. 0 \<le> i \<and> i \<le> 127 \<longrightarrow> tasks s' i = fresh_task"
    using al by (auto simp: s'_def p_def fresh_task_def)
  ultimately show ?case by blast
qed

lemma run_counters:
  assumes "run E as s = Some (Done s')" and "sched_inv s"
  shows "num_tasks s \<le> num_tasks s' \<and> clock_reads s \<le> clock_reads s'"
  using assms
proof (induction as arbitrary: s)
  case Nil
  then show ?case by simp
next
  case (Cons a as)
  from Cons.prems(1) obtain s1 where s1: "step E a s = Some (Done s1)" and r: "run E as s1 = Some (Done s')"
    by (auto split: option.splits outcome.splits)
  from step_counters[OF Cons.prems(2) s1] Cons.IH[OF r step_inv[OF Cons.prems(2) s1]]
  show ?case by simp
qed

lemma reached_Done: "run E as (scheduler_init static_init) = Some (Done s) \<Longrightarrow> reached E as = s"
  by (simp add: reached_def)

lemma fill_and_rotate_reaches:
  "run (const_env 0) fill_and_rotate (scheduler_init static_init) =
     Some (Done (reached (const_env 0) fill_and_rotate))"
  "sched_inv (reached (const_env 0) fill_and_rotate)"
  "num_tasks (reached (const_env 0) fill_and_rotate) = 128"
  "current_task (reached (const_env 0) fill_and_rotate) = 127"
  "tasks (reached (const_env 0) fill_and_rotate) 0 = fresh_task"
proof -
  from sleeps_reach[of 127 0] obtain s where
    r: "run (const_env 0) fill_and_rotate (scheduler_init static_init) = Some (Done s)"
    and p: "sched_inv s" "num_tasks s = 128" "current_task s = 127"
      "\<forall>i. 0 \<le> i \<and> i \<le> 127 \<longrightarrow> tasks s i = fresh_task"
    unfolding fill_and_rotate_def by auto
  from reached_Done[OF r] have e: "reached (const_env 0) fill_and_rotate = s" .
  show "run (const_env 0) fill_and_rotate (scheduler_init static_init) =
     Some (Done (reached (const_env 0) fill_and_rotate))" using r e by simp
  show "sched_inv (reached (const_env 0) fill_and_rotate)"
    "num_tasks (reached (const_env 0) fill_and_rotate) = 128"
    "current_task (reached (const_env 0) fill_and_rotate) = 127"
    "tasks (reached (const_env 0) fill_and_rotate) 0 = fresh_task"
    using p e by auto
qed

lemma schedule_next_eq_spec:
  assumes "table_ok s" and "current_task s + 1 < MAX_TASKS"
  shows "schedule_next E s = schedule_next_spec E s"
proof (cases "current_task s + 1 < num_tasks s")
  case True
  with assms(1) have "(current_task s + 1) mod num_tasks s = current_task s + 1"
    by (simp add: table_ok_def)
  then show ?thesis by (simp add: schedule_next_def schedule_next_spec_def)
next
  case False
  with assms(1) have e: "current_task s + 1 = num_tasks s" by (simp add: table_ok_def)
  with assms have it: "in_table (num_tasks s)" and z: "tasks s (num_tasks s) = zero_task"
    by (auto simp: table_ok_def in_table_def)
  have "is_ready E s (tasks s (num_tasks s)) = Done (False, s)"
    using z by (simp add: is_ready_def zero_task_def)
  from scan_not_ready[OF it this] have "scan E (num_tasks s) s = scan E 0 s" by simp
  with e show ?thesis by (simp add: schedule_next_def schedule_next_spec_def)
qed

lemma run_unclaimed_dead:
  assumes "run E as (scheduler_init static_init) = Some (Done s)"
    and "num_tasks s \<le> i" and "i < MAX_TASKS"
  shows "is_alive (tasks s i) = 0"
  using run_inv[OF assms(1) init_inv] assms(2,3)
  by (simp add: sched_inv_def table_ok_def zero_task_def)

section \<open>Suspended tasks\<close>

lemma suspended_not_current: "suspended E c bs s \<Longrightarrow> current_task s \<noteq> c"
  by (cases bs) auto

lemma suspended_frame:
  assumes "suspended E c bs s" and "run E bs s = Some (Done s')" and "sched_inv s"
    and "0 \<le> c" and "c < num_tasks s"
  shows "tasks s' c = tasks s c"
  using assms
proof (induction bs arbitrary: s)
  case Nil
  then show ?case by simp
next
  case (Cons a bs)
  from Cons.prems(2) obtain s1 where s1: "step E a s = Some (Done s1)"
    and r: "run E bs s1 = Some (Done s')"
    by (auto split: option.splits outcome.splits)
  from Cons.prems(1) s1 have nc: "current_task s \<noteq> c" and su: "suspended E c bs s1" by auto
  from suspended_not_current[OF su] have nc1: "current_task s1 \<noteq> c" .
  from step_frame[OF Cons.prems(3) s1 Cons.prems(4,5)] nc nc1
  have f: "tasks s1 c = tasks s c" by auto
  from step_counters(2)[OF Cons.prems(3) s1] Cons.prems(5) have "c < num_tasks s1" by simp
  from Cons.IH[OF su r step_inv[OF Cons.prems(3) s1] Cons.prems(4) this] f
  show ?case by simp
qed



lemma suspended_end:
  "suspended E c bs s \<Longrightarrow> run E bs s = Some (Done s') \<Longrightarrow> current_task s' \<noteq> c"
proof (induction bs arbitrary: s)
  case Nil
  then show ?case by simp
next
  case (Cons a bs)
  from Cons.prems(2) obtain s1 where s1: "step E a s = Some (Done s1)"
    and r: "run E bs s1 = Some (Done s')"
    by (auto split: option.splits outcome.splits)
  from Cons.prems(1) s1 have "suspended E c bs s1" by simp
  from Cons.IH[OF this r] show ?case .
qed

text \<open>
  A task that has called \<^verbatim>\<open>task_sleep(ms)\<close> keeps the wake-up time the call has set for
  as long as it is suspended, and it is selected only at a clock reading that is at least
  that wake-up time, a \<^verbatim>\<open>size_t\<close>: the sum of the clock value at the call and \<open>ms\<close>, modulo
  \<open>2 ^ 64\<close>.
\<close>

lemma task_sleep_not_before_wake_time:
  assumes reach: "run E as (scheduler_init static_init) = Some (Done s)"
    and sl: "task_sleep E ms s = Some (Done s1)"
  shows "current_task s1 = current_task s \<Longrightarrow>
           time_src E (clock_reads s) + ms \<le> time_src E (clock_reads s1 - 1)"
    and "suspended E (current_task s) bs s1 \<Longrightarrow> run E bs s1 = Some (Done s2) \<Longrightarrow>
           wake_time (tasks s2 (current_task s)) = time_src E (clock_reads s) + ms"
    and "suspended E (current_task s) bs s1 \<Longrightarrow> run E bs s1 = Some (Done s2) \<Longrightarrow>
           step E a s2 = Some (Done s3) \<Longrightarrow> current_task s3 = current_task s \<Longrightarrow>
           time_src E (clock_reads s) + ms \<le> time_src E (clock_reads s3 - 1)"
proof -
  let ?c = "current_task s"
  from run_inv[OF reach init_inv] have inv: "sched_inv s" .
  then have tok: "table_ok s" by (simp add: sched_inv_def)
  then have itc: "in_table ?c" and c: "0 \<le> ?c" "?c < num_tasks s"
    by (simp_all add: table_ok_def in_table_def)
  define p where "p = s\<lparr>clock_reads := Suc (clock_reads s),
     tasks := (tasks s)(?c := (tasks s ?c)\<lparr>wake_time := time_src E (clock_reads s) + ms\<rparr>)\<rparr>"
  from sl itc have sn: "schedule_next E p = Some (Done s1)"
    by (simp add: task_sleep_def Let_def p_def time_ms_def)
  from tok have tp: "table_ok p" by (auto simp: table_ok_def p_def)
  from schedule_next_Done[OF sn tp] obtain j k where
    sel: "selects E p j k s1" and j: "0 \<le> j" "j < num_tasks p" by blast
  from selects_inv(1)[OF sel tp j(2)] have inv1: "sched_inv s1" .
  from sel have n1: "num_tasks s1 = num_tasks s" by (auto simp: selects_def p_def)
  show "current_task s1 = ?c \<Longrightarrow>
          time_src E (clock_reads s) + ms \<le> time_src E (clock_reads s1 - 1)"
    using sel by (auto simp: selects_def p_def)
  {
    assume su: "suspended E ?c bs s1" and r: "run E bs s1 = Some (Done s2)"
    from suspended_not_current[OF su] sel have "j \<noteq> ?c" by (auto simp: selects_def)
    with sel have "wake_time (tasks s1 ?c) = time_src E (clock_reads s) + ms"
      by (auto simp: selects_def p_def)
    with suspended_frame[OF su r inv1 c(1)] c(2) n1
    show w2: "wake_time (tasks s2 ?c) = time_src E (clock_reads s) + ms" by simp
    assume st: "step E a s2 = Some (Done s3)" and c3: "current_task s3 = ?c"
    from suspended_end[OF su r] c3 have "current_task s3 \<noteq> current_task s2" by simp
    from step_selected(1)[OF run_inv[OF r inv1] st this] c3 w2
    show "time_src E (clock_reads s) + ms \<le> time_src E (clock_reads s3 - 1)" by simp
  }
qed

text \<open>The definitions that evaluate a run on concrete inputs.\<close>

lemmas eval_defs = step.simps run.simps reached_def task_create_def task_wait_def task_sleep_def
  task_exit_def schedule_next_def scan.simps is_ready_def switch_to_def time_ms_def getch_def
  emit_def in_table_def MAX_TASKS_def scheduler_init_def static_init_def zero_task_def
  const_env_def Let_def STACK_SIZE_def ERR_def state_of.simps

section \<open>The passes of task_readchar\<close>






section \<open>Initialisation and the readiness predicate\<close>

text \<open>
  Claim C6. After \<^verbatim>\<open>scheduler_init\<close>, called on the statically initialised globals, task
  0 is alive, waits for no one and has wake-up time 0; \<^verbatim>\<open>current_task\<close> is 0 and
  \<^verbatim>\<open>num_tasks\<close> is 1. The wake-up time is the static zero: \<^verbatim>\<open>scheduler_init\<close> does not
  assign it.
\<close>

theorem scheduler_init_task0:
  "is_alive (tasks (scheduler_init static_init) 0) = 1 \<and>
   waiting_for (tasks (scheduler_init static_init) 0) = - 1 \<and>
   wake_time (tasks (scheduler_init static_init) 0) = 0 \<and>
   current_task (scheduler_init static_init) = 0 \<and>
   num_tasks (scheduler_init static_init) = 1"
  by (simp add: scheduler_init_def static_init_def emit_def zero_task_def)

text \<open>
  Claim C2, amended. For a task record that is dead, or waits for no one (\<open>- 1\<close>), or waits
  for a slot of the table, \<^verbatim>\<open>is_ready\<close> returns true exactly if the task is alive, it waits
  for no one or the task it waits for is not alive, and its wake-up time is at most the
  clock's value. The call changes none of the scheduler's globals: it queries the clock
  once if the first two conditions hold, and not at all otherwise. For a live record that
  waits for an index outside the table, the call reads \<^verbatim>\<open>tasks[waiting_for]\<close> outside the
  table.
\<close>

theorem is_ready_iff:
  "(is_alive task = 0 \<or> waiting_for task = - 1 \<or> in_table (waiting_for task) \<longrightarrow>
      is_ready E s task =
        Done (is_alive task \<noteq> 0 \<and>
              (waiting_for task = - 1 \<or> is_alive (tasks s (waiting_for task)) = 0) \<and>
              wake_time task \<le> time_src E (clock_reads s),
              if is_alive task \<noteq> 0 \<and>
                 (waiting_for task = - 1 \<or> is_alive (tasks s (waiting_for task)) = 0)
              then s\<lparr>clock_reads := Suc (clock_reads s)\<rparr> else s)) \<and>
   (is_alive task \<noteq> 0 \<and> waiting_for task \<noteq> - 1 \<and> \<not> in_table (waiting_for task) \<longrightarrow>
      is_ready E s task = Undefined (Out_of_table (waiting_for task)) s)"
  by (auto simp: is_ready_def time_ms_def)

theorem is_ready_iff_witness:
  "is_ready (const_env 5) static_init \<lparr>is_alive = 1, wake_time = 3, waiting_for = 0\<rparr> =
     Done (True, static_init\<lparr>clock_reads := 1\<rparr>) \<and>
   is_ready (const_env 5) static_init \<lparr>is_alive = 1, wake_time = 7, waiting_for = - 1\<rparr> =
     Done (False, static_init\<lparr>clock_reads := 1\<rparr>) \<and>
   is_ready (const_env 5) (scheduler_init static_init)
       \<lparr>is_alive = 1, wake_time = 3, waiting_for = 0\<rparr> =
     Done (False, scheduler_init static_init) \<and>
   is_ready (const_env 5) static_init \<lparr>is_alive = 0, wake_time = 3, waiting_for = 500\<rparr> =
     Done (False, static_init) \<and>
   is_ready (const_env 5) static_init \<lparr>is_alive = 1, wake_time = 3, waiting_for = 500\<rparr> =
     Undefined (Out_of_table 500) static_init"
  using is_ready_iff [of "\<lparr>is_alive = 1, wake_time = 3, waiting_for = 0\<rparr>" "const_env 5" static_init]
    is_ready_iff [of "\<lparr>is_alive = 1, wake_time = 7, waiting_for = - 1\<rparr>" "const_env 5" static_init]
    is_ready_iff [of "\<lparr>is_alive = 1, wake_time = 3, waiting_for = 0\<rparr>" "const_env 5"
      "scheduler_init static_init"]
    is_ready_iff [of "\<lparr>is_alive = 0, wake_time = 3, waiting_for = 500\<rparr>" "const_env 5" static_init]
    is_ready_iff [of "\<lparr>is_alive = 1, wake_time = 3, waiting_for = 500\<rparr>" "const_env 5" static_init]
  by (simp add: in_table_def MAX_TASKS_def static_init_def zero_task_def const_env_def
      scheduler_init_def emit_def)

text \<open>
  As stated, for every task record, the claim fails: \<^verbatim>\<open>task_wait\<close> stores any handle, and
  after \<^verbatim>\<open>task_wait(128)\<close> the record of task 0 is alive and waits for index 128. For that
  record \<^verbatim>\<open>is_ready\<close> returns neither true nor false: it reads \<^verbatim>\<open>tasks[128]\<close>.
\<close>

theorem is_ready_reads_outside_table:
  "run (const_env 0) [Wait 128] (scheduler_init static_init) =
     Some (Undefined (Out_of_table 128) (reached (const_env 0) [Wait 128])) \<and>
   is_alive (tasks (reached (const_env 0) [Wait 128]) 0) = 1 \<and>
   waiting_for (tasks (reached (const_env 0) [Wait 128]) 0) = 128 \<and>
   is_ready (const_env 0) (reached (const_env 0) [Wait 128])
     (tasks (reached (const_env 0) [Wait 128]) 0) =
     Undefined (Out_of_table 128) (reached (const_env 0) [Wait 128])"
  by (simp add: eval_defs)

section \<open>The scan of schedule_next\<close>

text \<open>
  Claim C1 says that the scan starts at \<open>(current_task + 1) mod num_tasks\<close>. The code
  starts it at \<open>current_task + 1\<close> and reduces the index only after a failed probe
  (\<^verbatim>\<open>if (i >= num_tasks) i = 0\<close>). With the table full and the task of the last slot
  running (a state the program \<open>fill_and_rotate\<close> reaches), the first probe is
  \<^verbatim>\<open>tasks[128]\<close>, outside the table, where the claim has slot 0 examined. Elsewhere the
  scan is as claimed: it ends at the first ready slot of its order (\<open>scan_first_ready\<close>),
  and a completed scan has made that slot current, cleared its wait target and swapped
  from the old task's context to the slot's (\<open>schedule_next_Done\<close>).
\<close>

theorem schedule_next_probes_outside_table:
  "run (const_env 0) fill_and_rotate (scheduler_init static_init) =
     Some (Done (reached (const_env 0) fill_and_rotate)) \<and>
   current_task (reached (const_env 0) fill_and_rotate) = 127 \<and>
   num_tasks (reached (const_env 0) fill_and_rotate) = 128 \<and>
   schedule_next (const_env 0) (reached (const_env 0) fill_and_rotate) =
     Some (Undefined (Out_of_table 128) (reached (const_env 0) fill_and_rotate))"
  using fill_and_rotate_reaches(1,3,4)
  by (simp add: schedule_next_def scan_outside in_table_def MAX_TASKS_def)

text \<open>
  Claim C10 says that the unreduced first probe never matters, the unclaimed slots being
  dead (\<open>run_unclaimed_dead\<close>), so that the selection is that of the scan started at
  \<open>(current_task + 1) mod num_tasks\<close>. That holds while \<open>current_task + 1\<close> is a slot of
  the table (\<open>schedule_next_eq_spec\<close>). In the state reached by \<open>fill_and_rotate\<close> the
  two differ: the spec's scan selects slot 0, the code's scan reads \<^verbatim>\<open>tasks[128]\<close>.
\<close>

theorem last_slot_scan_differs_from_spec:
  "map_option ub_of (schedule_next (const_env 0) (reached (const_env 0) fill_and_rotate)) =
     Some (Some (Out_of_table 128)) \<and>
   map_option ub_of (schedule_next_spec (const_env 0) (reached (const_env 0) fill_and_rotate)) =
     Some None \<and>
   map_option (\<lambda>r. current_task (state_of r))
     (schedule_next_spec (const_env 0) (reached (const_env 0) fill_and_rotate)) = Some 0"
proof -
  let ?E = "const_env 0" and ?s = "reached (const_env 0) fill_and_rotate"
  have c: "schedule_next ?E ?s = Some (Undefined (Out_of_table 128) ?s)"
    using fill_and_rotate_reaches(3,4)
    by (simp add: schedule_next_def scan_outside in_table_def MAX_TASKS_def)
  have it: "in_table 0" "in_table (current_task ?s)"
    using fill_and_rotate_reaches(4) by (simp_all add: in_table_def MAX_TASKS_def)
  have rd: "is_ready ?E ?s (tasks ?s 0) = Done (True, ?s\<lparr>clock_reads := Suc (clock_reads ?s)\<rparr>)"
    using fill_and_rotate_reaches(5)
    by (simp add: is_ready_def fresh_task_def time_ms_def const_env_def)
  have "schedule_next_spec ?E ?s = scan ?E 0 ?s"
    using fill_and_rotate_reaches(3,4) by (simp add: schedule_next_spec_def)
  also have "\<dots> = Some (switch_to 0 (?s\<lparr>clock_reads := Suc (clock_reads ?s)\<rparr>))"
    by (rule scan_ready[OF it(1) rd])
  finally have "schedule_next_spec ?E ?s =
      Some (switch_to 0 (?s\<lparr>clock_reads := Suc (clock_reads ?s)\<rparr>))" .
  with it(2) c show ?thesis by (simp add: switch_to_def Let_def emit_def)
qed

section \<open>The bounds of the indices\<close>

text \<open>
  Claim C3, amended. In every state in which a run of operations from
  \<^verbatim>\<open>scheduler_init\<close> stands after the operations have completed, none of them having
  accessed the table outside its bounds, \<open>0 \<le> current_task < num_tasks \<le> MAX_TASKS\<close>.
\<close>

theorem run_bounds:
  assumes "run E as (scheduler_init static_init) = Some (Done s)"
  shows "0 \<le> current_task s \<and> current_task s < num_tasks s \<and> num_tasks s \<le> MAX_TASKS"
  using run_inv[OF assms init_inv] by (simp add: sched_inv_def table_ok_def)

theorem run_bounds_witness:
  "\<exists>s. run (const_env 0) fill_and_rotate (scheduler_init static_init) = Some (Done s) \<and>
       0 \<le> current_task s \<and> current_task s < num_tasks s \<and> num_tasks s \<le> MAX_TASKS"
  using run_bounds [OF fill_and_rotate_reaches(1)] fill_and_rotate_reaches(1) by blast

text \<open>
  As stated, for any sequence of operations, the claim fails: \<^verbatim>\<open>task_create\<close> has no
  capacity check and increments \<^verbatim>\<open>num_tasks\<close> before it writes the table, so the 128th
  creation after \<^verbatim>\<open>scheduler_init\<close> leaves \<^verbatim>\<open>num_tasks = 129\<close> as it writes
  \<^verbatim>\<open>tasks[128]\<close>.
\<close>

theorem creates_exceed_table:
  "run (const_env 0) (replicate 128 (Create 0)) (scheduler_init static_init) =
     Some (Undefined (Out_of_table 128) (reached (const_env 0) (replicate 128 (Create 0)))) \<and>
   num_tasks (reached (const_env 0) (replicate 128 (Create 0))) = 129 \<and>
   \<not> num_tasks (reached (const_env 0) (replicate 128 (Create 0))) \<le> MAX_TASKS"
proof -
  let ?E = "const_env 0"
  from creates_reach[of 127 ?E 0] obtain s where
    r: "run ?E (replicate 127 (Create 0)) (scheduler_init static_init) = Some (Done s)"
    and nt: "num_tasks s = 128"
    by auto
  have nit: "\<not> in_table (num_tasks s)" using nt by (simp add: in_table_def MAX_TASKS_def)
  have "replicate 128 (Create 0) = replicate 127 (Create 0) @ [Create 0]"
    by (simp add: replicate_append_same flip: replicate_Suc)
  then have "run ?E (replicate 128 (Create 0)) (scheduler_init static_init) =
      Some (Undefined (Out_of_table 128) (s\<lparr>num_tasks := num_tasks s + 1, num_alive := num_alive s + 1\<rparr>))"
    using r task_create_Undefined[OF nit, of 0] nt by (simp only: run_append) simp
  then show ?thesis using nt by (simp add: reached_def MAX_TASKS_def)
qed

section \<open>task_create\<close>

text \<open>
  Claim C4, amended. \<^verbatim>\<open>task_create\<close> checks no capacity and has no error path. Called
  with \<open>num_tasks < MAX_TASKS\<close> it returns the handle \<open>num_tasks\<close> and writes the new record
  inside the table, at slot \<open>num_tasks\<close>: the slot becomes alive and waits for no one (its
  wake-up time is not assigned), no other slot changes, both counters increase by one and
  the running task stays the same. Called with \<open>MAX_TASKS\<close> slots claimed it reports
  nothing: it increments both counters and writes \<^verbatim>\<open>tasks[num_tasks]\<close>, outside the table.
\<close>

theorem task_create_unchecked:
  "(0 \<le> num_tasks s \<and> num_tasks s < MAX_TASKS \<longrightarrow>
      (\<exists>s'. task_create fn s = Done (num_tasks s, s') \<and>
            in_table (num_tasks s) \<and>
            is_alive (tasks s' (num_tasks s)) = 1 \<and>
            waiting_for (tasks s' (num_tasks s)) = - 1 \<and>
            wake_time (tasks s' (num_tasks s)) = wake_time (tasks s (num_tasks s)) \<and>
            (\<forall>j. j \<noteq> num_tasks s \<longrightarrow> tasks s' j = tasks s j) \<and>
            num_tasks s' = num_tasks s + 1 \<and>
            num_alive s' = num_alive s + 1 \<and>
            current_task s' = current_task s)) \<and>
   (MAX_TASKS \<le> num_tasks s \<longrightarrow>
      task_create fn s = Undefined (Out_of_table (num_tasks s))
        (s\<lparr>num_tasks := num_tasks s + 1, num_alive := num_alive s + 1\<rparr>))"
  by (auto simp: task_create_def Let_def in_table_def emit_def)

theorem task_create_unchecked_witness:
  "(\<exists>s'. task_create 0 (scheduler_init static_init) = Done (1, s') \<and>
         is_alive (tasks s' 1) = 1 \<and> waiting_for (tasks s' 1) = - 1 \<and>
         wake_time (tasks s' 1) = 0 \<and>
         tasks s' 0 = tasks (scheduler_init static_init) 0 \<and>
         num_tasks s' = 2 \<and> num_alive s' = 2 \<and> current_task s' = 0) \<and>
   task_create 0 (static_init\<lparr>num_tasks := 128\<rparr>) =
     Undefined (Out_of_table 128) (static_init\<lparr>num_tasks := 129, num_alive := 1\<rparr>)"
proof -
  have n: "num_tasks (scheduler_init static_init) = 1"
    "num_alive (scheduler_init static_init) = 1"
    "current_task (scheduler_init static_init) = 0"
    "wake_time (tasks (scheduler_init static_init) 1) = 0"
    by (simp_all add: scheduler_init_def static_init_def emit_def zero_task_def)
  from task_create_unchecked [of "scheduler_init static_init" 0, THEN conjunct1] n
  have "\<exists>s'. task_create 0 (scheduler_init static_init) = Done (1, s') \<and>
         is_alive (tasks s' 1) = 1 \<and> waiting_for (tasks s' 1) = - 1 \<and>
         wake_time (tasks s' 1) = 0 \<and>
         tasks s' 0 = tasks (scheduler_init static_init) 0 \<and>
         num_tasks s' = 2 \<and> num_alive s' = 2 \<and> current_task s' = 0"
    by (auto simp: MAX_TASKS_def)
  moreover
  from task_create_unchecked [of "static_init\<lparr>num_tasks := 128\<rparr>" 0, THEN conjunct2]
  have "task_create 0 (static_init\<lparr>num_tasks := 128\<rparr>) =
     Undefined (Out_of_table 128) (static_init\<lparr>num_tasks := 129, num_alive := 1\<rparr>)"
    by (simp add: MAX_TASKS_def static_init_def)
  ultimately show ?thesis by (rule conjI)
qed

text \<open>
  As stated (a reported error at capacity) the claim fails: after 127 creations the table
  is full, and the next \<^verbatim>\<open>task_create\<close> writes \<^verbatim>\<open>tasks[128]\<close>.
\<close>

theorem task_create_at_capacity:
  "run (const_env 0) (replicate 127 (Create 0)) (scheduler_init static_init) =
     Some (Done (reached (const_env 0) (replicate 127 (Create 0)))) \<and>
   num_tasks (reached (const_env 0) (replicate 127 (Create 0))) = MAX_TASKS \<and>
   ub_of (task_create 0 (reached (const_env 0) (replicate 127 (Create 0)))) =
     Some (Out_of_table 128)"
proof -
  from creates_reach[of 127 "const_env 0" 0] obtain s where
    r: "run (const_env 0) (replicate 127 (Create 0)) (scheduler_init static_init) = Some (Done s)"
    and nt: "num_tasks s = 128"
    by auto
  have nit: "\<not> in_table (num_tasks s)" using nt by (simp add: in_table_def MAX_TASKS_def)
  from task_create_Undefined[OF nit, of 0] reached_Done[OF r] nt r
  show ?thesis by (simp add: MAX_TASKS_def)
qed

text \<open>
  Claim C5. In a state the scheduler has reached, with \<open>num_tasks = n < MAX_TASKS\<close>,
  \<^verbatim>\<open>task_create\<close> returns the handle \<open>n\<close>, marks slot \<open>n\<close> alive and waiting for no one,
  and makes \<open>num_tasks = n + 1\<close>; \<open>num_tasks\<close> never falls to \<open>n\<close> again, so the slot is
  not claimed twice. The call makes no context switch: the running task is the same and
  the calls to the context primitive are those that set up the two contexts, without
  \<^verbatim>\<open>swapcontext\<close>. The new task satisfies \<^verbatim>\<open>is_ready\<close> right after the call.
\<close>

theorem task_create_next_slot:
  assumes "run E as (scheduler_init static_init) = Some (Done s)"
    and "num_tasks s < MAX_TASKS"
  shows "\<exists>s'. task_create fn s = Done (num_tasks s, s') \<and>
           num_tasks s' = num_tasks s + 1 \<and>
           is_alive (tasks s' (num_tasks s)) = 1 \<and>
           waiting_for (tasks s' (num_tasks s)) = - 1 \<and>
           current_task s' = current_task s \<and>
           trace s' = trace s @
             [Getcontext (Exit_context (num_tasks s)),
              Malloc_stack (Exit_context (num_tasks s)) STACK_SIZE,
              Makecontext (Exit_context (num_tasks s)) Task_exit,
              Getcontext (Context (num_tasks s)),
              Malloc_stack (Context (num_tasks s)) STACK_SIZE,
              Set_uc_link (Context (num_tasks s)) (Exit_context (num_tasks s)),
              Makecontext (Context (num_tasks s)) (Task_fn fn)] \<and>
           is_ready E s' (tasks s' (num_tasks s)) =
             Done (True, s'\<lparr>clock_reads := Suc (clock_reads s')\<rparr>) \<and>
           (\<forall>bs s''. run E bs s' = Some (Done s'') \<longrightarrow> num_tasks s < num_tasks s'')"
proof -
  from run_inv[OF assms(1) init_inv] have inv: "sched_inv s" .
  then have tok: "table_ok s" by (simp add: sched_inv_def)
  define s' where "s' = s\<lparr>num_tasks := num_tasks s + 1, num_alive := num_alive s + 1,
         tasks := (tasks s)(num_tasks s := \<lparr>is_alive = 1, wake_time = 0, waiting_for = - 1\<rparr>),
         trace := trace s @
           [Getcontext (Exit_context (num_tasks s)),
            Malloc_stack (Exit_context (num_tasks s)) STACK_SIZE,
            Makecontext (Exit_context (num_tasks s)) Task_exit,
            Getcontext (Context (num_tasks s)),
            Malloc_stack (Context (num_tasks s)) STACK_SIZE,
            Set_uc_link (Context (num_tasks s)) (Exit_context (num_tasks s)),
            Makecontext (Context (num_tasks s)) (Task_fn fn)]\<rparr>"
  from task_create_Done[OF tok assms(2), of fn]
  have c: "task_create fn s = Done (num_tasks s, s')" by (simp add: s'_def)
  then have st: "step E (Create fn) s = Some (Done s')" by simp
  from step_inv[OF inv st] have inv': "sched_inv s'" .
  have rd: "is_ready E s' (tasks s' (num_tasks s)) =
             Done (True, s'\<lparr>clock_reads := Suc (clock_reads s')\<rparr>)"
    by (simp add: is_ready_def time_ms_def s'_def)
  have later: "\<forall>bs s''. run E bs s' = Some (Done s'') \<longrightarrow> num_tasks s < num_tasks s''"
  proof (intro allI impI)
    fix bs s'' assume "run E bs s' = Some (Done s'')"
    from run_counters[OF this inv'] show "num_tasks s < num_tasks s''" by (simp add: s'_def)
  qed
  show ?thesis
    apply (rule exI[of _ s'])
    using c rd later by (simp add: s'_def)
qed

theorem task_create_next_slot_witness:
  "\<exists>s'. task_create 0 (scheduler_init static_init) = Done (1, s') \<and>
        num_tasks s' = 2 \<and> is_alive (tasks s' 1) = 1 \<and> waiting_for (tasks s' 1) = - 1 \<and>
        current_task s' = 0 \<and>
        is_ready (const_env 0) s' (tasks s' 1) = Done (True, s'\<lparr>clock_reads := Suc (clock_reads s')\<rparr>)"
proof -
  have r: "run (const_env 0) [] (scheduler_init static_init) = Some (Done (scheduler_init static_init))"
    by simp
  have n: "num_tasks (scheduler_init static_init) = 1" "current_task (scheduler_init static_init) = 0"
    by (simp_all add: scheduler_init_def static_init_def emit_def)
  then have lt: "num_tasks (scheduler_init static_init) < MAX_TASKS" by (simp add: MAX_TASKS_def)
  from task_create_next_slot [OF r lt, of 0] n show ?thesis by auto
qed

section \<open>task_wait\<close>




section \<open>task_sleep\<close>

text \<open>
  Claim C8 has the sleeping task not resume before the clock reaches \<open>start + ms\<close>.
  That holds of the sum as a \<^verbatim>\<open>size_t\<close> (\<open>task_sleep_not_before_wake_time\<close>), but the sum
  wraps: with the clock at 1000, \<^verbatim>\<open>task_sleep(SIZE_MAX)\<close> sets the wake-up time to 999, and
  the scan of the same call resumes the task at clock value 1000.
\<close>

theorem task_sleep_wraps_around:
  "time_src (const_env 1000) 0 = 1000 \<and>
   task_sleep (const_env 1000) (- 1) (scheduler_init static_init) =
     Some (Done (reached (const_env 1000) [Sleep (- 1)])) \<and>
   wake_time (tasks (reached (const_env 1000) [Sleep (- 1)]) 0) = 999 \<and>
   current_task (reached (const_env 1000) [Sleep (- 1)]) = 0 \<and>
   clock_reads (reached (const_env 1000) [Sleep (- 1)]) = 2 \<and>
   trace (reached (const_env 1000) [Sleep (- 1)]) =
     [Getcontext (Context 0), Swapcontext (Context 0) (Context 0)]"
  by (simp add: eval_defs)

section \<open>task_readchar\<close>



end
